theory Spec2Isabelle
  imports Main "HOL-Library.Word"
begin

unbundle bit_operations_syntax

section \<open>The generational slot map (namespace v4 of SlotMapExample/Main.cpp)\<close>

subsection \<open>Data\<close>

text \<open>
  \<^verbatim>\<open>typedef long long object_id;\<close> A handle is a 64-bit two's complement integer;
  the low 32 bits carry the slot index, the high 32 bits the generation.
\<close>

type_synonym object_id = "64 word"

text \<open>
  \<^verbatim>\<open>struct object { object_id id; /* other fields */ };\<close> The field is called
  \<open>id'\<close> here because \<open>id\<close> is the identity function of HOL.
\<close>

record object =
  id' :: object_id

text \<open>\<^verbatim>\<open>const size_t chunk_size = 256;\<close>\<close>

definition chunk_size :: nat where
  "chunk_size = 256"

text \<open>
  The two globals \<^verbatim>\<open>std::vector<object*> object_table\<close> and
  \<^verbatim>\<open>std::vector<int> free_list\<close>. A chunk pointer is modelled by the array it points
  to; an \<^verbatim>\<open>int\<close> is a 32-bit word read with \<open>sint\<close>.
\<close>

record pool =
  object_table :: "object list list"
  free_list :: "32 word list"

text \<open>Both vectors are empty when the program starts.\<close>

definition empty_pool :: pool where
  "empty_pool = \<lparr>object_table = [], free_list = []\<rparr>"

text \<open>
  An \<^verbatim>\<open>object*\<close> returned by \<^verbatim>\<open>get_object\<close> is the address of a slot: the number of
  its chunk in the table and its offset in that chunk. \<open>None\<close> is \<^verbatim>\<open>nullptr\<close>.
\<close>

type_synonym object_ptr = "nat \<times> nat"

text \<open>
  The source has no checks of its own. A call that runs into undefined behaviour of C++
  has a fault for its result, and no state after it: \<open>OutOfBoundsRead\<close> is a read of a
  vector or a chunk past its end, \<open>NullDereference\<close> a use of \<^verbatim>\<open>nullptr\<close> as an object,
  \<open>EmptyBack\<close> a call of \<^verbatim>\<open>back()\<close> on an empty vector.
\<close>

datatype fault = OutOfBoundsRead | NullDereference | EmptyBack

subsection \<open>Handle layout\<close>

text \<open>
  The expressions of lines 139 and 145: \<^verbatim>\<open>id & 0xFFFFFFFF\<close> is the index,
  \<^verbatim>\<open>id >> 32\<close> (an arithmetic shift of a \<^verbatim>\<open>long long\<close>) the generation, and
  \<^verbatim>\<open>index | (generation << 32)\<close> packs the two. Shifts of signed values follow
  two's complement, as C++20 defines them.
\<close>

definition index_bits :: "object_id \<Rightarrow> object_id" where
  "index_bits h = h AND 0xFFFFFFFF"

definition generation_bits :: "object_id \<Rightarrow> object_id" where
  "generation_bits h = signed_drop_bit 32 h"

definition pack :: "object_id \<Rightarrow> object_id \<Rightarrow> object_id" where
  "pack i g = i OR push_bit 32 g"

text \<open>
  Index and generation as the 32-bit quantities the layout stores: \<open>encode\<close> and
  \<open>decode\<close> are the packing and unpacking above at that width.
\<close>

definition encode :: "32 word \<Rightarrow> 32 word \<Rightarrow> object_id" where
  "encode i g = pack (ucast i) (ucast g)"

definition decode :: "object_id \<Rightarrow> 32 word \<times> 32 word" where
  "decode h = (ucast (index_bits h), ucast (generation_bits h))"

subsection \<open>Operations\<close>

text \<open>
  The loop of \<^verbatim>\<open>create_object\<close>:
  \<^verbatim>\<open>for (int i = chunk_size - 1; i >= 0; --i) {
      chunk[i].id = object_table.size() * chunk_size + i;
      free_list.push_back(object_table.size() * chunk_size + i); }\<close>
  \<open>grow_loop (Suc i)\<close> runs the body at loop index \<open>i\<close> and goes on below it;
  \<open>base\<close> is \<^verbatim>\<open>object_table.size() * chunk_size\<close>. The \<^verbatim>\<open>size_t\<close> sum is
  converted to \<^verbatim>\<open>long long\<close> for the slot and to \<^verbatim>\<open>int\<close> for the free list.
\<close>

primrec grow_loop :: "nat \<Rightarrow> nat \<Rightarrow> object list \<Rightarrow> 32 word list \<Rightarrow> object list \<times> 32 word list" where
  "grow_loop 0 base chunk fl = (chunk, fl)"
| "grow_loop (Suc i) base chunk fl =
     grow_loop i base (chunk[i := (chunk ! i)\<lparr>id' := of_nat (base + i)\<rparr>])
       (fl @ [of_nat (base + i)])"

text \<open>
  \<^verbatim>\<open>new object[chunk_size]\<close> leaves the ids indeterminate; the loop writes every one
  of them (\<open>grow_loop_full\<close> below), so the model starts from zeros.
\<close>

definition new_chunk :: "object list" where
  "new_chunk = replicate chunk_size \<lparr>id' = 0\<rparr>"

text \<open>The body of \<^verbatim>\<open>if (free_list.empty()) { ... }\<close>.\<close>

definition grow :: "pool \<Rightarrow> pool" where
  "grow s =
     (case grow_loop chunk_size (length (object_table s) * chunk_size) new_chunk (free_list s) of
        (chunk, fl) \<Rightarrow> \<lparr>object_table = object_table s @ [chunk], free_list = fl\<rparr>)"

text \<open>
  \<^verbatim>\<open>int free = free_list.back(); free_list.pop_back();
  return object_table[free / chunk_size][free % chunk_size].id;\<close>
  Dividing the \<^verbatim>\<open>int\<close> by a \<^verbatim>\<open>size_t\<close> converts it to the 64-bit unsigned type
  first (sign extension).
\<close>

definition create_object :: "pool \<Rightarrow> fault + (object_id \<times> pool)" where
  "create_object s =
     (let s1 = (if free_list s = [] then grow s else s) in
      if free_list s1 = [] then Inl EmptyBack
      else
        let free = last (free_list s1);
            s2 = s1\<lparr>free_list := butlast (free_list s1)\<rparr>;
            ix = unat (scast free :: 64 word);
            c = ix div chunk_size;
            off = ix mod chunk_size
        in if c < length (object_table s2) \<and> off < length (object_table s2 ! c)
           then Inr (id' (object_table s2 ! c ! off), s2)
           else Inl OutOfBoundsRead)"

text \<open>
  \<^verbatim>\<open>object* obj = object_table[(id & 0xFFFFFFFF) / chunk_size] + ((id & 0xFFFFFFFF) % chunk_size);
  return obj->id != id ? nullptr : obj;\<close>
  Like the other two functions, \<^verbatim>\<open>get_object\<close> works on the two globals: the call
  returns its result together with the pool it leaves behind. Neither of its two
  statements assigns to a global or through a pointer.
\<close>

definition get_object :: "object_id \<Rightarrow> pool \<Rightarrow> fault + (object_ptr option \<times> pool)" where
  "get_object h s =
     (let ix = unat (index_bits h);
          c = ix div chunk_size;
          off = ix mod chunk_size
      in if c < length (object_table s) \<and> off < length (object_table s ! c)
         then (if id' (object_table s ! c ! off) \<noteq> h then Inr (None, s) else Inr (Some (c, off), s))
         else Inl OutOfBoundsRead)"

text \<open>
  \<^verbatim>\<open>object* obj = get_object(id);
  obj->id = (obj->id & 0xFFFFFFFF) | (((obj->id >> 32) + 1) << 32);
  free_list.push_back(id & 0xFFFFFFFF);\<close>
  The result of \<^verbatim>\<open>get_object\<close> is used unchecked. The push converts the
  \<^verbatim>\<open>long long\<close> to \<^verbatim>\<open>int\<close>.
\<close>

definition destroy_object :: "object_id \<Rightarrow> pool \<Rightarrow> fault + pool" where
  "destroy_object h s =
     (case get_object h s of
        Inl e \<Rightarrow> Inl e
      | Inr (None, s1) \<Rightarrow> Inl NullDereference
      | Inr (Some (c, off), s1) \<Rightarrow>
          let obj = object_table s1 ! c ! off;
              obj' = obj\<lparr>id' := pack (index_bits (id' obj)) (generation_bits (id' obj) + 1)\<rparr>
          in Inr \<lparr>object_table = (object_table s1)[c := (object_table s1 ! c)[off := obj']],
                  free_list = free_list s1 @ [ucast (index_bits h)]\<rparr>)"

subsection \<open>Runs of the pool\<close>

text \<open>
  A client of the pool calls the three functions in some order, as \<^verbatim>\<open>main\<close> does.
  A run stops at the first fault: nothing is known of the program after it.
\<close>

datatype op = Create | Get object_id | Destroy object_id

datatype outcome = Created object_id | Got "object_ptr option" | Destroyed

definition step :: "op \<Rightarrow> pool \<Rightarrow> fault + (outcome \<times> pool)" where
  "step a s =
     (case a of
        Create \<Rightarrow> (case create_object s of Inl e \<Rightarrow> Inl e | Inr (h, s') \<Rightarrow> Inr (Created h, s'))
      | Get h \<Rightarrow> (case get_object h s of Inl e \<Rightarrow> Inl e | Inr (p, s') \<Rightarrow> Inr (Got p, s'))
      | Destroy h \<Rightarrow> (case destroy_object h s of Inl e \<Rightarrow> Inl e | Inr s' \<Rightarrow> Inr (Destroyed, s')))"

fun run :: "op list \<Rightarrow> pool \<Rightarrow> fault + pool" where
  "run [] s = Inr s"
| "run (a # as) s = (case step a s of Inl e \<Rightarrow> Inl e | Inr (r, s') \<Rightarrow> run as s')"

text \<open>The states the pool can be in: those a run reaches from the empty pool.\<close>

inductive reachable :: "pool \<Rightarrow> bool" where
  reachable_empty: "reachable empty_pool"
| reachable_step: "reachable s \<Longrightarrow> step a s = Inr (r, s') \<Longrightarrow> reachable s'"

text \<open>The slot with global index \<open>k\<close>, the number of slots, and a slot's generation.\<close>

definition slot_at :: "pool \<Rightarrow> nat \<Rightarrow> object" where
  "slot_at s k = object_table s ! (k div chunk_size) ! (k mod chunk_size)"

definition num_slots :: "pool \<Rightarrow> nat" where
  "num_slots s = chunk_size * length (object_table s)"

definition generation_at :: "pool \<Rightarrow> nat \<Rightarrow> 32 word" where
  "generation_at s k = snd (decode (id' (slot_at s k)))"

text \<open>How many operations of a run destroy a handle of slot \<open>k\<close>.\<close>

fun destroys_of :: "nat \<Rightarrow> op list \<Rightarrow> nat" where
  "destroys_of k [] = 0"
| "destroys_of k (Destroy h # as) = (if unat (index_bits h) = k then 1 else 0) + destroys_of k as"
| "destroys_of k (a # as) = destroys_of k as"

subsection \<open>Auxiliary notions\<close>

text \<open>The chunk and the free-list entries that the loop of \<^verbatim>\<open>create_object\<close> produces.\<close>

definition fresh_chunk :: "nat \<Rightarrow> object list" where
  "fresh_chunk base = map (\<lambda>i. \<lparr>id' = of_nat (base + i)\<rparr>) [0..<chunk_size]"

definition fresh_indices :: "nat \<Rightarrow> 32 word list" where
  "fresh_indices base = map (\<lambda>i. of_nat (base + i)) (rev [0..<chunk_size])"

text \<open>
  What every reachable pool satisfies: at most \<open>2 ^ 31\<close> slots, chunks of
  \<open>chunk_size\<close> slots, every slot's id carrying the slot's own index in its low half,
  and only allocated indices on the free list.
\<close>

definition pool_inv :: "pool \<Rightarrow> bool" where
  "pool_inv s \<longleftrightarrow>
     num_slots s \<le> 2 ^ 31 \<and>
     (\<forall>chunk \<in> set (object_table s). length chunk = chunk_size) \<and>
     (\<forall>k < num_slots s. index_bits (id' (slot_at s k)) = of_nat k) \<and>
     (\<forall>f \<in> set (free_list s). unat f < num_slots s)"

text \<open>Writing the id \<open>x\<close> into slot \<open>k\<close>, everything else as it is.\<close>

definition set_slot :: "pool \<Rightarrow> nat \<Rightarrow> object_id \<Rightarrow> pool" where
  "set_slot s k x =
     s\<lparr>object_table := (object_table s)[k div chunk_size :=
          (object_table s ! (k div chunk_size))[k mod chunk_size := \<lparr>id' = x\<rparr>]]\<rparr>"

text \<open>
  A client that creates an object and destroys it at once, \<open>n\<close> times over; \<open>x\<close> is the
  handle the first of these creations returns.
\<close>

fun churn :: "nat \<Rightarrow> object_id \<Rightarrow> op list" where
  "churn 0 x = []"
| "churn (Suc n) x = Create # Destroy x # churn n (x + 0x100000000)"

text \<open>
  Three pools with one chunk: after the first \<^verbatim>\<open>create_object()\<close> of the program
  (slot 0 handed out), after the \<^verbatim>\<open>destroy_object(0)\<close> that follows it, and with
  every slot of the chunk free at generation 0.
\<close>

definition first_pool :: pool where
  "first_pool = \<lparr>object_table = [fresh_chunk 0], free_list = butlast (fresh_indices 0)\<rparr>"

definition stale_pool :: pool where
  "stale_pool = \<lparr>object_table = [(fresh_chunk 0)[0 := \<lparr>id' = 0x100000000\<rparr>]],
                  free_list = fresh_indices 0\<rparr>"

definition idle_pool :: pool where
  "idle_pool = \<lparr>object_table = [fresh_chunk 0], free_list = fresh_indices 0\<rparr>"

text \<open>The pool of \<open>n\<close> chunks in which every slot is handed out at generation 0.\<close>

definition full_pool :: "nat \<Rightarrow> pool" where
  "full_pool n = \<lparr>object_table = map (\<lambda>c. fresh_chunk (c * chunk_size)) [0..<n], free_list = []\<rparr>"

text \<open>The pool after \<^verbatim>\<open>create_object()\<close> has handed slot 0 out a second time.\<close>

definition reused_pool :: pool where
  "reused_pool = \<lparr>object_table = [(fresh_chunk 0)[0 := \<lparr>id' = 0x100000000\<rparr>]],
                   free_list = butlast (fresh_indices 0)\<rparr>"

text \<open>
  The pool of \<open>n + 1\<close> chunks whose last chunk has handed out its slots below offset
  \<open>j\<close>, all other chunks being full.
\<close>

definition partial_pool :: "nat \<Rightarrow> nat \<Rightarrow> pool" where
  "partial_pool n j =
     \<lparr>object_table = map (\<lambda>c. fresh_chunk (c * chunk_size)) [0..<Suc n],
      free_list = map (\<lambda>i. of_nat (n * chunk_size + i)) (rev [j..<chunk_size])\<rparr>"

section \<open>Properties\<close>

subsection \<open>The loop and the handle layout\<close>

lemma object_upd [simp]: "(x::object)\<lparr>id' := v\<rparr> = \<lparr>id' = v\<rparr>"
  by (cases x) simp

lemma grow_loop_length: "length (fst (grow_loop n base chunk fl)) = length chunk"
  by (induction n arbitrary: chunk fl) simp_all

lemma grow_loop_snd:
  "snd (grow_loop n base chunk fl) = fl @ map (\<lambda>i. of_nat (base + i)) (rev [0..<n])"
  by (induction n arbitrary: chunk fl) simp_all

lemma grow_loop_nth_ge:
  "n \<le> i \<Longrightarrow> fst (grow_loop n base chunk fl) ! i = chunk ! i"
  by (induction n arbitrary: chunk fl) simp_all

lemma grow_loop_nth:
  "i < n \<Longrightarrow> n \<le> length chunk \<Longrightarrow> fst (grow_loop n base chunk fl) ! i = \<lparr>id' = of_nat (base + i)\<rparr>"
proof (induction n arbitrary: chunk fl)
  case 0
  then show ?case by simp
next
  case (Suc n)
  show ?case
  proof (cases "i = n")
    case True
    with Suc.prems show ?thesis by (simp add: grow_loop_nth_ge)
  next
    case False
    with Suc.prems have "i < n" by simp
    with Suc.prems Suc.IH [of "chunk[n := \<lparr>id' = of_nat (base + n)\<rparr>]"] show ?thesis by simp
  qed
qed

lemma grow_loop_full:
  assumes "length chunk = chunk_size"
  shows "grow_loop chunk_size base chunk fl = (fresh_chunk base, fl @ fresh_indices base)"
proof -
  have "fst (grow_loop chunk_size base chunk fl) = fresh_chunk base"
    using assms by (intro nth_equalityI) (simp_all add: grow_loop_length fresh_chunk_def grow_loop_nth)
  moreover have "snd (grow_loop chunk_size base chunk fl) = fl @ fresh_indices base"
    by (simp add: grow_loop_snd fresh_indices_def)
  ultimately show ?thesis by (simp add: prod_eq_iff)
qed

lemma grow_eq:
  "grow s = \<lparr>object_table = object_table s @ [fresh_chunk (length (object_table s) * chunk_size)],
             free_list = free_list s @ fresh_indices (length (object_table s) * chunk_size)\<rparr>"
  by (simp add: grow_def grow_loop_full new_chunk_def)

lemma index_bits_mask: "index_bits h = take_bit 32 h"
  by (simp add: index_bits_def take_bit_eq_mask mask_eq_exp_minus_1)

lemma index_bits_of_nat: "k < 2 ^ 32 \<Longrightarrow> index_bits (of_nat k) = of_nat k"
  by (simp add: index_bits_mask take_bit_of_nat take_bit_nat_eq_self)

lemma unat_index_bits_less: "unat (index_bits h) < 2 ^ 32"
proof -
  have "unat (take_bit 32 h) = take_bit 32 (unat h)"
    by (rule unsigned_take_bit_eq)
  then show ?thesis
    by (simp add: index_bits_mask take_bit_eq_mod)
qed

lemma int_bit_clear: "unat (f :: 32 word) < 2 ^ 31 \<Longrightarrow> \<not> bit f 31"
proof
  assume a: "unat f < 2 ^ 31" and b: "bit f 31"
  from b have "bit (unat f) 31" by (simp add: bit_unsigned_iff)
  then have "odd (unat f div 2 ^ 31)" by (simp add: bit_iff_odd)
  with a show False by simp
qed

lemma unat_scast_int: "unat (f :: 32 word) < 2 ^ 31 \<Longrightarrow> unat (scast f :: 64 word) = unat f"
proof -
  assume a: "unat f < 2 ^ 31"
  have "(scast f :: 64 word) = ucast f"
    using int_bit_clear [OF a] by (intro bit_word_eqI) (auto simp: bit_word_scast_iff bit_word_ucast_iff dest: bit_imp_le_length)
  moreover have "unat (ucast f :: 64 word) = unat f"
    using a by (simp add: unsigned_ucast_eq take_bit_nat_eq_self)
  ultimately show ?thesis by simp
qed

lemma unat_ucast_index_bits: "unat (ucast (index_bits h) :: 32 word) = unat (index_bits h)"
  using unat_index_bits_less [of h] by (simp add: unsigned_ucast_eq take_bit_nat_eq_self)

lemma unat_of_nat_int: "k < 2 ^ 32 \<Longrightarrow> unat (of_nat k :: 32 word) = k"
  by (simp add: unat_of_nat)

lemma unat_of_nat_id: "k < 2 ^ 32 \<Longrightarrow> unat (of_nat k :: 64 word) = k"
  by (simp add: unat_of_nat)

lemma chunk_size_pos [simp]: "0 < chunk_size"
  by (simp add: chunk_size_def)

lemma div_less_chunks: "k < num_slots s \<longleftrightarrow> k div chunk_size < length (object_table s)"
  by (simp add: num_slots_def less_mult_imp_div_less div_less_iff_less_mult mult.commute)

lemma pool_inv_chunk:
  "pool_inv s \<Longrightarrow> c < length (object_table s) \<Longrightarrow> length (object_table s ! c) = chunk_size"
  by (simp add: pool_inv_def)

lemma get_object_frame: "get_object h s = Inr (p, s') \<Longrightarrow> s' = s"
  by (auto simp: get_object_def Let_def split: if_splits)

lemma get_object_eq:
  assumes "pool_inv s"
  shows "get_object h s =
    (if unat (index_bits h) < num_slots s
     then (if id' (slot_at s (unat (index_bits h))) \<noteq> h then Inr (None, s)
           else Inr (Some (unat (index_bits h) div chunk_size, unat (index_bits h) mod chunk_size), s))
     else Inl OutOfBoundsRead)"
  using assms
  by (simp add: get_object_def Let_def slot_at_def div_less_chunks pool_inv_chunk)

lemma same_index:
  assumes "pool_inv s" "k < num_slots s" "id' (slot_at s k) = h"
  shows "unat (index_bits h) = k"
proof -
  from assms have "index_bits h = of_nat k" by (auto simp: pool_inv_def)
  moreover from assms have "k < 2 ^ 32" by (simp add: pool_inv_def)
  ultimately show ?thesis by (simp add: unat_of_nat_id)
qed

lemma get_object_Some:
  assumes "pool_inv s" "get_object h s = Inr (Some p, s')"
  shows "unat (index_bits h) < num_slots s \<and> id' (slot_at s (unat (index_bits h))) = h \<and>
         p = (unat (index_bits h) div chunk_size, unat (index_bits h) mod chunk_size)"
  using assms by (auto simp: get_object_eq split: if_splits)

lemma slot_at_update:
  assumes "c < length (object_table s)" "off < chunk_size"
    "length (object_table s ! c) = chunk_size"
  shows "slot_at (s\<lparr>object_table := (object_table s)[c := (object_table s ! c)[off := v]]\<rparr>) j =
         (if j = c * chunk_size + off then v else slot_at s j)"
proof (cases "j div chunk_size = c")
  case True
  then show ?thesis using assms
    by (auto simp: slot_at_def nth_list_update)
next
  case False
  then show ?thesis using assms
    by (auto simp: slot_at_def nth_list_update)
qed

lemma low_mask: "(0xFFFFFFFF :: 64 word) = mask 32"
  by (simp add: mask_eq_exp_minus_1)

lemma push_signed_drop: "push_bit 32 (signed_drop_bit 32 (x::64 word)) = push_bit 32 (drop_bit 32 x)"
  by (rule bit_word_eqI) (auto simp: bit_simps)

lemma low_high_disjoint: "(x AND mask 32) AND push_bit 32 (y::64 word) = 0"
  by (rule bit_word_eqI) (auto simp: bit_simps)

lemma next_generation: "pack (index_bits x) (generation_bits x + 1) = x + 0x100000000"
proof -
  have hi: "push_bit 32 (signed_drop_bit 32 x + 1) = push_bit 32 (drop_bit 32 x) + 0x100000000"
    by (simp add: push_bit_add push_signed_drop)
  have "(x AND mask 32) OR push_bit 32 (signed_drop_bit 32 x + 1)
      = (x AND mask 32) + push_bit 32 (signed_drop_bit 32 x + 1)"
    by (rule disjunctive_add_eq_or [symmetric]) (rule low_high_disjoint)
  also have "\<dots> = (take_bit 32 x + push_bit 32 (drop_bit 32 x)) + 0x100000000"
    by (simp only: hi take_bit_eq_mask add.assoc)
  also have "\<dots> = x + 0x100000000"
    using bits_ident [of 32 x] by (simp only: add.commute)
  finally show ?thesis
    by (simp only: pack_def index_bits_def generation_bits_def low_mask)
qed

lemma index_bits_pack: "index_bits (pack (index_bits x) g) = index_bits x"
  unfolding pack_def index_bits_def low_mask
  by (rule bit_word_eqI) (auto simp: bit_simps)

lemma index_bits_next: "index_bits (x + 0x100000000) = index_bits x"
  using index_bits_pack [of x "generation_bits x + 1"] by (simp only: next_generation)

lemma destroy_object_eq:
  assumes "pool_inv s"
  shows "destroy_object h s =
    (let k = unat (index_bits h) in
     if k < num_slots s
     then (if id' (slot_at s k) \<noteq> h then Inl NullDereference
           else Inr \<lparr>object_table = (object_table s)[k div chunk_size :=
                        (object_table s ! (k div chunk_size))[k mod chunk_size := \<lparr>id' = h + 0x100000000\<rparr>]],
                      free_list = free_list s @ [ucast (index_bits h)]\<rparr>)
     else Inl OutOfBoundsRead)"
proof -
  let ?k = "unat (index_bits h)"
  consider "\<not> ?k < num_slots s" | "?k < num_slots s" "id' (slot_at s ?k) \<noteq> h"
    | "?k < num_slots s" "id' (slot_at s ?k) = h" by blast
  then show ?thesis
  proof cases
    case 1
    then show ?thesis using assms by (simp add: destroy_object_def get_object_eq)
  next
    case 2
    then show ?thesis using assms by (simp add: destroy_object_def get_object_eq)
  next
    case 3
    then have "get_object h s = Inr (Some (?k div chunk_size, ?k mod chunk_size), s)"
      using assms by (simp add: get_object_eq)
    moreover have "id' (object_table s ! (?k div chunk_size) ! (?k mod chunk_size)) = h"
      using 3 by (simp add: slot_at_def)
    ultimately show ?thesis using 3
      by (simp add: destroy_object_def Let_def next_generation)
  qed
qed

lemma num_slots_grow: "num_slots (grow s) = num_slots s + chunk_size"
  by (simp add: grow_eq num_slots_def)

lemma free_list_grow: "free_list (grow s) = free_list s @ fresh_indices (num_slots s)"
  by (simp add: grow_eq num_slots_def mult.commute)

lemma object_table_grow: "object_table (grow s) = object_table s @ [fresh_chunk (num_slots s)]"
  by (simp add: grow_eq num_slots_def mult.commute)

lemma fresh_indices_snoc:
  "fresh_indices base = map (\<lambda>i. of_nat (base + i)) (rev [1..<chunk_size]) @ [of_nat base]"
proof -
  have "[0..<chunk_size] = 0 # [1..<chunk_size]"
    by (simp add: upt_conv_Cons)
  then show ?thesis by (simp add: fresh_indices_def)
qed

lemma slot_at_grow_old: "k < num_slots s \<Longrightarrow> slot_at (grow s) k = slot_at s k"
  by (simp add: slot_at_def object_table_grow nth_append div_less_chunks)

lemma slot_at_grow_new:
  assumes "num_slots s \<le> k" "k < num_slots s + chunk_size"
  shows "slot_at (grow s) k = \<lparr>id' = of_nat k\<rparr>"
proof -
  from assms have d: "k div chunk_size = length (object_table s)"
    by (auto simp: num_slots_def mult.commute intro!: div_nat_eqI)
  have m: "k mod chunk_size < chunk_size" by simp
  have "num_slots s + k mod chunk_size = k"
    using d div_mult_mod_eq [of k chunk_size] by (simp add: num_slots_def mult.commute)
  then have "(of_nat (num_slots s + k mod chunk_size) :: 64 word) = of_nat k"
    by simp
  then show ?thesis using m
    by (simp add: slot_at_def object_table_grow nth_append d fresh_chunk_def del: mod_less_divisor)
qed

lemma num_slots_room:
  assumes "pool_inv s"
  shows "num_slots s + chunk_size \<le> 2 ^ 31 \<or> num_slots s = 2 ^ 31"
proof -
  from assms have "chunk_size * length (object_table s) \<le> 2 ^ 31"
    by (simp add: pool_inv_def num_slots_def)
  then show ?thesis
    by (simp add: num_slots_def chunk_size_def) arith
qed

lemma set_fresh_indices:
  "f \<in> set (fresh_indices base) \<Longrightarrow> \<exists>i < chunk_size. f = of_nat (base + i)"
  by (auto simp: fresh_indices_def)

lemma pool_inv_grow:
  assumes "pool_inv s" "num_slots s + chunk_size \<le> 2 ^ 31"
  shows "pool_inv (grow s)"
proof -
  have "index_bits (id' (slot_at (grow s) k)) = of_nat k" if "k < num_slots s + chunk_size" for k
  proof (cases "k < num_slots s")
    case True
    then show ?thesis using assms by (simp add: slot_at_grow_old pool_inv_def)
  next
    case False
    moreover from that assms have "k < 2 ^ 32" by simp
    ultimately show ?thesis using that by (simp add: slot_at_grow_new index_bits_of_nat)
  qed
  moreover have "unat f < num_slots s + chunk_size" if "f \<in> set (free_list (grow s))" for f
  proof (cases "f \<in> set (free_list s)")
    case True
    then show ?thesis using assms by (auto simp: pool_inv_def)
  next
    case False
    with that obtain i where i: "i < chunk_size" "f = of_nat (num_slots s + i)"
      by (auto simp: free_list_grow dest: set_fresh_indices)
    with assms have "num_slots s + i < 2 ^ 32" by simp
    then have "unat (of_nat (num_slots s + i) :: 32 word) = num_slots s + i"
      by (rule unat_of_nat_int)
    with i show ?thesis by (simp del: of_nat_add)
  qed
  moreover have "\<forall>chunk \<in> set (object_table (grow s)). length chunk = chunk_size"
    using assms by (auto simp: object_table_grow pool_inv_def fresh_chunk_def)
  ultimately show ?thesis using assms
    by (simp add: pool_inv_def num_slots_grow)
qed

lemma pool_inv_pop:
  "pool_inv s \<Longrightarrow> pool_inv (s\<lparr>free_list := butlast (free_list s)\<rparr>)"
  by (auto simp: pool_inv_def num_slots_def slot_at_def dest: in_set_butlastD)

lemma create_object_via:
  assumes "s1 = (if free_list s = [] then grow s else s)" "pool_inv s1" "free_list s1 \<noteq> []"
  shows "create_object s =
    Inr (id' (slot_at s1 (unat (last (free_list s1)))), s1\<lparr>free_list := butlast (free_list s1)\<rparr>)"
proof -
  let ?f = "last (free_list s1)"
  from assms have "unat ?f < num_slots s1" by (simp add: pool_inv_def)
  moreover from assms have "num_slots s1 \<le> 2 ^ 31" by (simp add: pool_inv_def)
  ultimately have ix: "unat (scast ?f :: 64 word) = unat ?f" and lt: "unat ?f < num_slots s1"
    by (simp_all add: unat_scast_int)
  from lt have c: "unat ?f div chunk_size < length (object_table s1)"
    by (simp add: div_less_chunks)
  with assms have "unat ?f mod chunk_size < length (object_table s1 ! (unat ?f div chunk_size))"
    by (simp add: pool_inv_chunk)
  with c ix assms(1,3) show ?thesis
    by (simp add: create_object_def Let_def slot_at_def)
qed

lemma create_object_full:
  assumes "free_list s = []" "num_slots s = 2 ^ 31"
  shows "create_object s = Inl OutOfBoundsRead"
proof -
  let ?s1 = "grow s"
  have l: "last (free_list ?s1) = (of_nat (2 ^ 31) :: 32 word)"
    using assms by (simp add: free_list_grow fresh_indices_snoc)
  have ne: "free_list ?s1 \<noteq> []"
    by (simp add: free_list_grow fresh_indices_snoc)
  have "unat (scast (of_nat (2 ^ 31) :: 32 word) :: 64 word) div chunk_size = 2 ^ 56 - 2 ^ 23"
    by (simp add: chunk_size_def)
  moreover have "length (object_table ?s1) = 2 ^ 23 + 1"
    using assms by (simp add: object_table_grow num_slots_def chunk_size_def)
  ultimately have "\<not> unat (scast (last (free_list ?s1)) :: 64 word) div chunk_size < length (object_table ?s1)"
    by (simp only: l) simp
  with ne assms(1) show ?thesis
    by (simp add: create_object_def Let_def)
qed

lemma create_object_Inr:
  assumes "pool_inv s" "create_object s = Inr (h, s')"
  defines "s1 \<equiv> (if free_list s = [] then grow s else s)"
  shows "pool_inv s1" "free_list s1 \<noteq> []"
    "h = id' (slot_at s1 (unat (last (free_list s1))))"
    "s' = s1\<lparr>free_list := butlast (free_list s1)\<rparr>"
    "free_list s = [] \<Longrightarrow> num_slots s + chunk_size \<le> 2 ^ 31"
proof -
  have room: "num_slots s + chunk_size \<le> 2 ^ 31" if "free_list s = []"
    using num_slots_room [OF assms(1)] create_object_full [OF that] assms(2) by auto
  then show inv1: "pool_inv s1"
    using assms(1) by (auto simp: s1_def pool_inv_grow)
  show ne: "free_list s1 \<noteq> []"
    by (simp add: s1_def free_list_grow fresh_indices_snoc)
  have "s1 = (if free_list s = [] then grow s else s)" by (simp add: s1_def)
  from create_object_via [OF this inv1 ne] assms(2)
  show "h = id' (slot_at s1 (unat (last (free_list s1))))"
    and "s' = s1\<lparr>free_list := butlast (free_list s1)\<rparr>" by simp_all
  show "free_list s = [] \<Longrightarrow> num_slots s + chunk_size \<le> 2 ^ 31" by (rule room)
qed

lemma pool_inv_create:
  assumes "pool_inv s" "create_object s = Inr (h, s')"
  shows "pool_inv s'"
  using create_object_Inr(1,4) [OF assms] by (simp add: pool_inv_pop)

lemma destroy_object_Inr:
  assumes "pool_inv s" "destroy_object h s = Inr s'"
  defines "k \<equiv> unat (index_bits h)"
  shows "k < num_slots s" "id' (slot_at s k) = h"
    "object_table s' = (object_table s)[k div chunk_size :=
        (object_table s ! (k div chunk_size))[k mod chunk_size := \<lparr>id' = h + 0x100000000\<rparr>]]"
    "free_list s' = free_list s @ [ucast (index_bits h)]"
  using assms(2) unfolding destroy_object_eq [OF assms(1)] k_def
  by (auto simp: Let_def split: if_splits)

lemma destroy_slots:
  assumes "pool_inv s" "destroy_object h s = Inr s'"
  shows "num_slots s' = num_slots s"
    and "slot_at s' j = (if j = unat (index_bits h) then \<lparr>id' = h + 0x100000000\<rparr> else slot_at s j)"
proof -
  let ?k = "unat (index_bits h)"
  note d = destroy_object_Inr [OF assms]
  show "num_slots s' = num_slots s" by (simp add: d(3) num_slots_def)
  have c: "?k div chunk_size < length (object_table s)"
    using d(1) by (simp add: div_less_chunks)
  have "slot_at (s\<lparr>object_table := object_table s'\<rparr>) j =
      (if j = ?k div chunk_size * chunk_size + ?k mod chunk_size then \<lparr>id' = h + 0x100000000\<rparr> else slot_at s j)"
    unfolding d(3) using c assms(1) by (intro slot_at_update) (simp_all add: pool_inv_chunk)
  then show "slot_at s' j = (if j = ?k then \<lparr>id' = h + 0x100000000\<rparr> else slot_at s j)"
    by (simp add: slot_at_def)
qed

lemma pool_inv_destroy:
  assumes "pool_inv s" "destroy_object h s = Inr s'"
  shows "pool_inv s'"
proof -
  note d = destroy_object_Inr [OF assms] and e = destroy_slots [OF assms]
  have "length (object_table s ! (unat (index_bits h) div chunk_size)) = chunk_size"
    using d(1) assms(1) by (simp add: pool_inv_chunk div_less_chunks)
  then have "length chunk = chunk_size" if "chunk \<in> set (object_table s')" for chunk
    using that assms(1) unfolding d(3)
    by (auto simp: pool_inv_def dest!: set_update_subset_insert [THEN subsetD])
  moreover have "index_bits (id' (slot_at s' j)) = of_nat j" if "j < num_slots s" for j
    using that assms(1) d(1,2) by (auto simp: e(2) pool_inv_def index_bits_next)
  moreover have "unat (ucast (index_bits h) :: 32 word) < num_slots s"
    using d(1) by (simp add: unat_ucast_index_bits)
  ultimately show ?thesis using assms(1)
    by (auto simp: pool_inv_def e(1) d(4))
qed

lemma pool_inv_step:
  assumes "pool_inv s" "step a s = Inr (r, s')"
  shows "pool_inv s'"
  using assms
  by (cases a)
    (auto simp: step_def split: sum.splits dest: pool_inv_create pool_inv_destroy get_object_frame)

lemma pool_inv_empty: "pool_inv empty_pool"
  by (simp add: pool_inv_def empty_pool_def num_slots_def)

lemma reachable_inv: "reachable s \<Longrightarrow> pool_inv s"
  by (induction rule: reachable.induct) (auto intro: pool_inv_empty pool_inv_step)

subsection \<open>Encoding and decoding handles\<close>

lemma fst_decode_encode: "fst (decode (encode i g)) = i"
  unfolding decode_def encode_def pack_def index_bits_def low_mask fst_conv
  by (rule bit_word_eqI) (auto simp: bit_simps)

lemma snd_decode_encode: "snd (decode (encode i g)) = g"
  unfolding decode_def encode_def pack_def generation_bits_def snd_conv
  by (rule bit_word_eqI) (auto simp: bit_simps dest: bit_imp_le_length)

lemma decode_encode: "decode (encode i g) = (i, g)"
  by (simp add: prod_eq_iff fst_decode_encode snd_decode_encode)

lemma pack_split:
  "(ucast (ucast (x AND mask 32 :: 64 word) :: 32 word) :: 64 word) OR
     push_bit 32 (ucast (ucast (signed_drop_bit 32 x) :: 32 word) :: 64 word) = x"
proof (rule bit_word_eqI)
  fix n
  assume "n < LENGTH(64)"
  then show "bit ((ucast (ucast (x AND mask 32 :: 64 word) :: 32 word) :: 64 word) OR
     push_bit 32 (ucast (ucast (signed_drop_bit 32 x) :: 32 word) :: 64 word)) n = bit x n"
    by (cases "n < 32") (auto simp: bit_simps not_less)
qed

lemma encode_decode: "encode (fst (decode h)) (snd (decode h)) = h"
  unfolding decode_def encode_def pack_def generation_bits_def index_bits_def low_mask fst_conv snd_conv
  by (rule pack_split)

lemma decode_inject: "decode x = decode y \<Longrightarrow> x = y"
  by (metis encode_decode)

lemma encode_of_nat: "k < 2 ^ 32 \<Longrightarrow> encode (of_nat k) 0 = of_nat k"
  unfolding encode_def pack_def
  by (simp add: word_eq_iff_unsigned [where 'a = nat] unsigned_ucast_eq unat_of_nat take_bit_nat_eq_self)

lemma generation_pack: "(ucast (generation_bits (pack (index_bits x) g)) :: 32 word) = ucast g"
  unfolding pack_def generation_bits_def index_bits_def low_mask
  by (rule bit_word_eqI) (auto simp: bit_simps dest: bit_imp_le_length)

lemma mod_succ_narrow:
  "(g + 1) mod 18446744073709551616 mod 4294967296 = (g mod 18446744073709551616 + 1) mod (4294967296 :: int)"
proof -
  have d: "(4294967296 :: int) dvd 18446744073709551616" by simp
  have "(g mod 18446744073709551616 + 1) mod (4294967296 :: int)
      = (g mod 18446744073709551616 mod 4294967296 + 1) mod 4294967296"
    by (simp only: mod_add_left_eq)
  also have "\<dots> = (g mod 4294967296 + 1) mod 4294967296"
    by (simp only: mod_mod_cancel [OF d])
  also have "\<dots> = (g + 1) mod 4294967296"
    by (simp only: mod_add_left_eq)
  finally show ?thesis by (simp only: mod_mod_cancel [OF d])
qed

lemma ucast_succ: "(ucast (g + 1 :: 64 word) :: 32 word) = ucast g + 1"
  by transfer (simp add: take_bit_eq_mod mod_succ_narrow)

lemma decode_next: "decode (x + 0x100000000) = (fst (decode x), snd (decode x) + 1)"
proof -
  have "decode (pack (index_bits x) (generation_bits x + 1)) = (fst (decode x), snd (decode x) + 1)"
    by (simp add: decode_def index_bits_pack generation_pack ucast_succ)
  then show ?thesis by (simp only: next_generation)
qed

subsection \<open>Slots along a run\<close>

lemma slot_at_free_list [simp]: "slot_at (s\<lparr>free_list := fl\<rparr>) k = slot_at s k"
  by (simp add: slot_at_def)

lemma num_slots_free_list [simp]: "num_slots (s\<lparr>free_list := fl\<rparr>) = num_slots s"
  by (simp add: num_slots_def)

lemma create_slots:
  assumes "pool_inv s" "create_object s = Inr (h, s')"
  shows "num_slots s \<le> num_slots s'"
    and "k < num_slots s \<Longrightarrow> slot_at s' k = slot_at s k"
    and "num_slots s \<le> k \<Longrightarrow> k < num_slots s' \<Longrightarrow> slot_at s' k = \<lparr>id' = of_nat k\<rparr>"
    and "unat (index_bits h) < num_slots s'"
    and "id' (slot_at s' (unat (index_bits h))) = h"
proof -
  let ?s1 = "if free_list s = [] then grow s else s"
  note c = create_object_Inr [OF assms]
  show "num_slots s \<le> num_slots s'"
    by (simp add: c(4) num_slots_grow)
  show "slot_at s' k = slot_at s k" if "k < num_slots s"
    using that by (simp add: c(4) slot_at_grow_old)
  show "slot_at s' k = \<lparr>id' = of_nat k\<rparr>" if "num_slots s \<le> k" "k < num_slots s'"
    using that by (auto simp: c(4) num_slots_grow slot_at_grow_new split: if_splits)
  let ?k = "unat (last (free_list ?s1))"
  from c(1,2) have k: "?k < num_slots ?s1" by (simp add: pool_inv_def)
  with c(1,3) have "unat (index_bits h) = ?k" by (intro same_index) simp_all
  with k c(3) show "unat (index_bits h) < num_slots s'" "id' (slot_at s' (unat (index_bits h))) = h"
    by (simp_all add: c(4))
qed

lemma step_slots:
  assumes "pool_inv s" "step a s = Inr (r, s')"
  shows "num_slots s \<le> num_slots s'"
    and "k < num_slots s \<Longrightarrow>
          id' (slot_at s' k) = id' (slot_at s k) + of_nat (destroys_of k [a]) * 0x100000000"
    and "num_slots s \<le> k \<Longrightarrow> k < num_slots s' \<Longrightarrow>
          id' (slot_at s' k) = of_nat k \<and> destroys_of k [a] = 0"
proof (atomize (full), cases a)
  case Create
  with assms(2) obtain h where "create_object s = Inr (h, s')"
    by (auto simp: step_def split: sum.splits)
  from create_slots(1-3) [OF assms(1) this] Create
  show "num_slots s \<le> num_slots s' \<and>
    (k < num_slots s \<longrightarrow> id' (slot_at s' k) = id' (slot_at s k) + of_nat (destroys_of k [a]) * 0x100000000) \<and>
    (num_slots s \<le> k \<longrightarrow> k < num_slots s' \<longrightarrow> id' (slot_at s' k) = of_nat k \<and> destroys_of k [a] = 0)"
    by simp
next
  case (Get h)
  with assms(2) have "s' = s" by (auto simp: step_def split: sum.splits dest: get_object_frame)
  with Get
  show "num_slots s \<le> num_slots s' \<and>
    (k < num_slots s \<longrightarrow> id' (slot_at s' k) = id' (slot_at s k) + of_nat (destroys_of k [a]) * 0x100000000) \<and>
    (num_slots s \<le> k \<longrightarrow> k < num_slots s' \<longrightarrow> id' (slot_at s' k) = of_nat k \<and> destroys_of k [a] = 0)"
    by simp
next
  case (Destroy h)
  with assms(2) have d: "destroy_object h s = Inr s'"
    by (auto simp: step_def split: sum.splits)
  from destroy_slots [OF assms(1) d] destroy_object_Inr(1,2) [OF assms(1) d] Destroy
  show "num_slots s \<le> num_slots s' \<and>
    (k < num_slots s \<longrightarrow> id' (slot_at s' k) = id' (slot_at s k) + of_nat (destroys_of k [a]) * 0x100000000) \<and>
    (num_slots s \<le> k \<longrightarrow> k < num_slots s' \<longrightarrow> id' (slot_at s' k) = of_nat k \<and> destroys_of k [a] = 0)"
    by auto
qed

lemma destroys_of_Cons: "destroys_of k (a # as) = destroys_of k [a] + destroys_of k as"
  by (cases a) simp_all

lemma run_slots:
  assumes "pool_inv s" "run as s = Inr s'"
  shows "pool_inv s'" 
    and "num_slots s \<le> num_slots s'"
    and "k < num_slots s \<Longrightarrow>
          id' (slot_at s' k) = id' (slot_at s k) + of_nat (destroys_of k as) * 0x100000000"
  using assms
proof (atomize (full), induction as arbitrary: s)
  case Nil
  then show ?case by simp
next
  case (Cons a as)
  from Cons.prems(2) obtain r s1 where st: "step a s = Inr (r, s1)" and rn: "run as s1 = Inr s'"
    by (auto split: sum.splits)
  note inv1 = pool_inv_step [OF Cons.prems(1) st]
  note ih = Cons.IH [OF inv1 rn]
  note ss = step_slots [OF Cons.prems(1) st]
  have "id' (slot_at s' k) = id' (slot_at s k) + of_nat (destroys_of k (a # as)) * 0x100000000"
    if "k < num_slots s"
  proof -
    from that ss(1) have "k < num_slots s1" by simp
    with ih have "id' (slot_at s' k) = id' (slot_at s1 k) + of_nat (destroys_of k as) * 0x100000000"
      by simp
    with ss(2) [OF that] show ?thesis
      by (simp add: destroys_of_Cons [of k a as] algebra_simps)
  qed
  with ih ss(1) show ?case by auto
qed

subsection \<open>Creating and destroying in turn\<close>

lemma reachable_run: "reachable s \<Longrightarrow> run as s = Inr s' \<Longrightarrow> reachable s'"
proof (induction as arbitrary: s)
  case Nil
  then show ?case by simp
next
  case (Cons a as)
  from Cons.prems(2) obtain r s1 where "step a s = Inr (r, s1)" "run as s1 = Inr s'"
    by (auto split: sum.splits)
  with Cons.prems(1) Cons.IH show ?case by (blast intro: reachable_step)
qed

lemma run_append: "run (as @ bs) s = (case run as s of Inl e \<Rightarrow> Inl e | Inr s' \<Rightarrow> run bs s')"
  by (induction as arbitrary: s) (auto split: sum.splits)

lemma set_slot_simps [simp]:
  "free_list (set_slot s k x) = free_list s"
  "num_slots (set_slot s k x) = num_slots s"
  by (simp_all add: set_slot_def num_slots_def)

lemma set_slot_twice: "set_slot (set_slot s k x) k y = set_slot s k y"
proof (cases "k div chunk_size < length (object_table s)")
  case True
  then show ?thesis by (simp add: set_slot_def)
next
  case False
  then have "(object_table s)[k div chunk_size := c] = object_table s" for c
    by (simp add: list_update_beyond)
  then show ?thesis by (simp add: set_slot_def)
qed

lemma set_slot_same:
  "id' (slot_at s k) = x \<Longrightarrow> set_slot s k x = s"
proof -
  assume "id' (slot_at s k) = x"
  then have "\<lparr>id' = x\<rparr> = object_table s ! (k div chunk_size) ! (k mod chunk_size)"
    by (simp add: slot_at_def)
  then show ?thesis by (simp add: set_slot_def)
qed

lemma slot_at_set_slot:
  "pool_inv s \<Longrightarrow> k < num_slots s \<Longrightarrow> slot_at (set_slot s k x) k = \<lparr>id' = x\<rparr>"
  by (simp add: set_slot_def slot_at_def div_less_chunks pool_inv_chunk)

lemma last_as_index:
  assumes "pool_inv s" "free_list s \<noteq> []" "id' (slot_at s (unat (last (free_list s)))) = x"
  shows "(ucast (index_bits x) :: 32 word) = last (free_list s)"
proof -
  let ?k = "unat (last (free_list s))"
  from assms(1,2) have "?k < num_slots s" by (simp add: pool_inv_def)
  with assms have "unat (index_bits x) = ?k" by (intro same_index)
  then have "unat (ucast (index_bits x) :: 32 word) = ?k"
    by (simp add: unat_ucast_index_bits)
  then show ?thesis by (simp add: word_eq_iff_unsigned [where 'a = nat])
qed

lemma create_destroy_cycle:
  assumes "pool_inv s" "free_list s \<noteq> []" "id' (slot_at s (unat (last (free_list s)))) = x"
  shows "create_object s = Inr (x, s\<lparr>free_list := butlast (free_list s)\<rparr>)"
    and "destroy_object x (s\<lparr>free_list := butlast (free_list s)\<rparr>) =
      Inr (set_slot s (unat (last (free_list s))) (x + 0x100000000))"
proof -
  let ?k = "unat (last (free_list s))" and ?s2 = "s\<lparr>free_list := butlast (free_list s)\<rparr>"
  from assms(2) have "s = (if free_list s = [] then grow s else s)" by simp
  from create_object_via [OF this assms(1,2)] assms(3)
  show "create_object s = Inr (x, ?s2)" by simp
  from assms(1,2) have k: "?k < num_slots s" by (simp add: pool_inv_def)
  with assms have ix: "unat (index_bits x) = ?k" by (intro same_index)
  have "butlast (free_list s) @ [ucast (index_bits x)] = free_list s"
    using assms(2) by (simp add: last_as_index [OF assms])
  with k ix assms(3) show "destroy_object x ?s2 = Inr (set_slot s ?k (x + 0x100000000))"
    by (simp add: destroy_object_eq [OF pool_inv_pop [OF assms(1)]] Let_def set_slot_def)
qed

lemma run_cycle:
  assumes "pool_inv s" "free_list s \<noteq> []" "id' (slot_at s (unat (last (free_list s)))) = x"
  shows "run (Create # Destroy x # as) s =
         run as (set_slot s (unat (last (free_list s))) (x + 0x100000000))"
  by (simp add: step_def create_destroy_cycle [OF assms])

lemma run_churn:
  assumes "pool_inv s" "free_list s \<noteq> []" "id' (slot_at s (unat (last (free_list s)))) = x"
  shows "run (churn n x) s = Inr (set_slot s (unat (last (free_list s))) (x + of_nat n * 0x100000000))"
  using assms
proof (induction n arbitrary: s x)
  case 0
  then show ?case by (simp add: set_slot_same)
next
  case (Suc n)
  let ?k = "unat (last (free_list s))"
  let ?s' = "set_slot s ?k (x + 0x100000000)"
  have r: "run [Create, Destroy x] s = Inr ?s'"
    using run_cycle [OF Suc.prems, of "[]"] by simp
  then have inv: "pool_inv ?s'" using Suc.prems(1) by (rule run_slots(1) [rotated])
  from Suc.prems(1,2) have "?k < num_slots s" by (simp add: pool_inv_def)
  then have "id' (slot_at ?s' (unat (last (free_list ?s')))) = x + 0x100000000"
    using Suc.prems(1) by (simp add: slot_at_set_slot)
  from Suc.IH [OF inv _ this] Suc.prems(2)
  have "run (churn n (x + 0x100000000)) ?s' =
      Inr (set_slot s ?k (x + 0x100000000 + of_nat n * 0x100000000))"
    by (simp add: set_slot_twice)
  moreover have "x + 0x100000000 + of_nat n * 0x100000000 = x + of_nat (Suc n) * 0x100000000"
    by (simp add: algebra_simps)
  ultimately show ?case
    by (simp only: churn.simps run_cycle [OF Suc.prems])
qed

lemma wrap_zero: "(of_nat 4294967296 * 0x100000000 :: 64 word) = 0"
  by simp

lemma run_churn_wrap:
  assumes "pool_inv s" "free_list s \<noteq> []" "id' (slot_at s (unat (last (free_list s)))) = x"
  shows "run (churn 4294967296 x) s = Inr s"
  using run_churn [OF assms, of 4294967296] assms(3) by (simp add: set_slot_same)

subsection \<open>The one-chunk pools\<close>

lemma idle_pool_grow: "idle_pool = grow empty_pool"
  by (simp add: idle_pool_def grow_eq empty_pool_def)

lemma pool_inv_idle: "pool_inv idle_pool"
  unfolding idle_pool_grow
  by (rule pool_inv_grow [OF pool_inv_empty]) (simp add: num_slots_def empty_pool_def chunk_size_def)

lemma idle_pool_facts:
  "free_list idle_pool \<noteq> []" "last (free_list idle_pool) = 0" "num_slots idle_pool = chunk_size"
  "slot_at idle_pool 0 = \<lparr>id' = 0\<rparr>"
proof -
  show "free_list idle_pool \<noteq> []" "last (free_list idle_pool) = 0"
    by (simp_all add: idle_pool_def fresh_indices_snoc)
  show "num_slots idle_pool = chunk_size"
    by (simp add: idle_pool_def num_slots_def)
  have "slot_at (grow empty_pool) 0 = \<lparr>id' = of_nat 0\<rparr>"
    by (rule slot_at_grow_new) (simp_all add: num_slots_def empty_pool_def)
  then show "slot_at idle_pool 0 = \<lparr>id' = 0\<rparr>"
    by (simp add: idle_pool_grow)
qed

lemma first_pool_pop: "first_pool = idle_pool\<lparr>free_list := butlast (free_list idle_pool)\<rparr>"
  by (simp add: first_pool_def idle_pool_def)

lemma stale_pool_set: "stale_pool = set_slot idle_pool 0 0x100000000"
  by (simp add: stale_pool_def idle_pool_def set_slot_def)

lemma create_empty_pool: "create_object empty_pool = Inr (0, first_pool)"
proof -
  have "idle_pool = (if free_list empty_pool = [] then grow empty_pool else empty_pool)"
    by (simp add: idle_pool_grow empty_pool_def)
  from create_object_via [OF this pool_inv_idle idle_pool_facts(1)]
  show ?thesis by (simp add: idle_pool_facts first_pool_pop)
qed

lemma create_idle_pool: "create_object idle_pool = Inr (0, first_pool)"
  using create_destroy_cycle(1) [OF pool_inv_idle idle_pool_facts(1), of 0]
  by (simp add: idle_pool_facts first_pool_pop)

lemma destroy_first_pool: "destroy_object 0 first_pool = Inr stale_pool"
  using create_destroy_cycle(2) [OF pool_inv_idle idle_pool_facts(1), of 0]
  by (simp add: idle_pool_facts first_pool_pop stale_pool_set)

lemma reachable_first_pool: "reachable first_pool"
  by (rule reachable_step [OF reachable_empty, of Create "Created 0"])
    (simp add: step_def create_empty_pool)

lemma reachable_stale_pool: "reachable stale_pool"
  by (rule reachable_step [OF reachable_first_pool, of "Destroy 0" Destroyed])
    (simp add: step_def destroy_first_pool)

lemma stale_pool_facts:
  "free_list stale_pool \<noteq> []" "last (free_list stale_pool) = 0" "num_slots stale_pool = chunk_size"
  "slot_at stale_pool 0 = \<lparr>id' = 0x100000000\<rparr>"
  by (simp_all add: stale_pool_set idle_pool_facts slot_at_set_slot pool_inv_idle)

lemma get_stale: "get_object 0 stale_pool = Inr (None, stale_pool)"
  by (simp add: get_object_eq [OF reachable_inv [OF reachable_stale_pool]] index_bits_def stale_pool_facts)

lemma first_pool_facts:
  "num_slots first_pool = chunk_size" "slot_at first_pool 0 = \<lparr>id' = 0\<rparr>"
  by (simp_all add: first_pool_pop idle_pool_facts)

lemma get_first: "get_object 0 first_pool = Inr (Some (0, 0), first_pool)"
  by (simp add: get_object_eq [OF reachable_inv [OF reachable_first_pool]] index_bits_def
      first_pool_facts)

lemma destroy_stale_pool: "destroy_object 0 stale_pool = Inl NullDereference"
  by (simp add: destroy_object_def get_stale)

lemma churn_stale: "run (churn 4294967295 0x100000000) stale_pool = Inr idle_pool"
proof -
  have "run (churn 4294967295 0x100000000) stale_pool =
      Inr (set_slot stale_pool (unat (last (free_list stale_pool))) (0x100000000 + of_nat 4294967295 * 0x100000000))"
    by (rule run_churn [OF reachable_inv [OF reachable_stale_pool]]) (simp_all add: stale_pool_facts)
  also have "(0x100000000 + of_nat 4294967295 * 0x100000000 :: 64 word) = 0"
    by simp
  finally show ?thesis
    by (simp add: stale_pool_facts stale_pool_set set_slot_twice set_slot_same idle_pool_facts)
qed

subsection \<open>Generations\<close>

lemma decode_add: "decode (x + of_nat n * 0x100000000) = (fst (decode x), snd (decode x) + of_nat n)"
proof (induction n)
  case 0
  then show ?case by simp
next
  case (Suc n)
  have "x + of_nat (Suc n) * 0x100000000 = (x + of_nat n * 0x100000000) + 0x100000000"
    by (simp add: algebra_simps)
  then show ?case
    by (simp only: decode_next Suc.IH) (simp add: algebra_simps)
qed

lemma decode_of_nat: "k < 2 ^ 32 \<Longrightarrow> decode (of_nat k) = (of_nat k, 0)"
  using decode_encode [of "of_nat k" 0] by (simp add: encode_of_nat)

lemma unat_fst_decode: "unat (fst (decode h)) = unat (index_bits h)"
  by (simp add: decode_def unat_ucast_index_bits)

lemma repack_encode:
  "pack (index_bits x) (generation_bits x + 1) = encode (fst (decode x)) (snd (decode x) + 1)"
  using encode_decode [of "x + 0x100000000"] by (simp add: next_generation decode_next)

lemma fst_decode_slot:
  assumes "pool_inv s" "unat (index_bits h) < num_slots s"
  shows "fst (decode (id' (slot_at s (unat (index_bits h))))) = fst (decode h)"
proof -
  let ?k = "unat (index_bits h)"
  from assms have "index_bits (id' (slot_at s ?k)) = of_nat ?k"
    by (simp add: pool_inv_def)
  then have "index_bits (id' (slot_at s ?k)) = index_bits h" by simp
  then show ?thesis by (simp add: decode_def)
qed

lemma slot_matches_iff:
  assumes "pool_inv s" "unat (index_bits h) < num_slots s"
  shows "id' (slot_at s (unat (index_bits h))) = h \<longleftrightarrow>
         generation_at s (unat (index_bits h)) = snd (decode h)"
proof
  assume "id' (slot_at s (unat (index_bits h))) = h"
  then show "generation_at s (unat (index_bits h)) = snd (decode h)"
    by (simp add: generation_at_def)
next
  assume "generation_at s (unat (index_bits h)) = snd (decode h)"
  with fst_decode_slot [OF assms] have "decode (id' (slot_at s (unat (index_bits h)))) = decode h"
    by (simp add: generation_at_def prod_eq_iff)
  then show "id' (slot_at s (unat (index_bits h))) = h" by (rule decode_inject)
qed

lemma no_wrap: "0 < n \<Longrightarrow> n < 2 ^ 32 \<Longrightarrow> (x::64 word) + of_nat n * 0x100000000 \<noteq> x"
proof
  assume a: "0 < n" "n < 2 ^ 32" and e: "x + of_nat n * 0x100000000 = x"
  then have "(of_nat n * 0x100000000 :: 64 word) = 0" by simp
  then have "(of_nat (n * 2 ^ 32) :: 64 word) = 0" by simp
  then have "(2::nat) ^ 64 dvd n * 2 ^ 32" by (simp only: word_of_nat_eq_0_iff) simp
  then have "(2::nat) ^ 64 \<le> n * 2 ^ 32" using a by (intro dvd_imp_le) simp_all
  then show False using a by simp
qed

lemma stale_after_run:
  assumes "pool_inv s" "destroy_object h s = Inr s1" "run as s1 = Inr s2"
    "destroys_of (unat (index_bits h)) as < 2 ^ 32 - 1"
  shows "get_object h s2 = Inr (None, s2)"
proof -
  let ?k = "unat (index_bits h)" and ?n = "destroys_of (unat (index_bits h)) as"
  note d = destroy_object_Inr(1,2) [OF assms(1,2)] and e = destroy_slots [OF assms(1,2)]
  note inv1 = pool_inv_destroy [OF assms(1,2)]
  note r = run_slots [OF inv1 assms(3)]
  from d(1) e(1) have k1: "?k < num_slots s1" by simp
  have "id' (slot_at s2 ?k) = h + 0x100000000 + of_nat ?n * 0x100000000"
    using r(3) [OF k1] by (simp add: e(2))
  also have "\<dots> = h + of_nat (Suc ?n) * 0x100000000"
    by (simp add: algebra_simps)
  also have "\<dots> \<noteq> h"
    using assms(4) by (intro no_wrap) simp_all
  finally have "id' (slot_at s2 ?k) \<noteq> h" .
  moreover from k1 r(2) have "?k < num_slots s2" by simp
  ultimately show ?thesis by (simp add: get_object_eq [OF r(1)])
qed

subsection \<open>More one-chunk pools\<close>

lemma reused_pool_pop: "reused_pool = stale_pool\<lparr>free_list := butlast (free_list stale_pool)\<rparr>"
  by (simp add: reused_pool_def stale_pool_def)

lemma create_stale_pool: "create_object stale_pool = Inr (0x100000000, reused_pool)"
proof -
  have "id' (slot_at stale_pool (unat (last (free_list stale_pool)))) = 0x100000000"
    by (simp add: stale_pool_facts)
  from create_destroy_cycle(1) [OF reachable_inv [OF reachable_stale_pool] stale_pool_facts(1) this]
  show ?thesis by (simp add: reused_pool_pop)
qed

lemma num_slots_empty [simp]: "num_slots empty_pool = 0"
  by (simp add: num_slots_def empty_pool_def)

lemma run_create_stale: "run [Create] stale_pool = Inr reused_pool"
  by (simp add: step_def create_stale_pool)

lemma run_destroy_first: "run [Destroy 0] first_pool = Inr stale_pool"
  by (simp add: step_def destroy_first_pool)

lemma index_bits_zero [simp]: "index_bits 0 = 0" "index_bits 0x100000000 = 0"
  by (simp_all add: index_bits_def)

lemma decode_zero [simp]: "decode 0 = (0, 0)"
  using decode_of_nat [of 0] by simp

lemma decode_one [simp]: "decode 0x100000000 = (0, 1)"
  using decode_next [of 0] by simp

lemma generation_first [simp]: "generation_at first_pool 0 = 0"
  by (simp add: generation_at_def first_pool_facts)

lemma generation_stale [simp]: "generation_at stale_pool 0 = 1"
  by (simp add: generation_at_def stale_pool_facts)

lemma reused_pool_facts:
  "num_slots reused_pool = chunk_size" "slot_at reused_pool 0 = \<lparr>id' = 0x100000000\<rparr>"
  by (simp_all add: reused_pool_pop stale_pool_facts)

subsection \<open>Filling the pool\<close>

lemma num_slots_full [simp]: "num_slots (full_pool n) = chunk_size * n"
  by (simp add: full_pool_def num_slots_def)

lemma free_list_full [simp]: "free_list (full_pool n) = []"
  by (simp add: full_pool_def)

lemma full_pool_0: "full_pool 0 = empty_pool"
  by (simp add: full_pool_def empty_pool_def)

lemma grow_full_pool: "grow (full_pool n) = partial_pool n 0"
  by (simp add: grow_eq full_pool_def partial_pool_def fresh_indices_def)

lemma partial_pool_done: "partial_pool n chunk_size = full_pool (Suc n)"
  by (simp add: partial_pool_def full_pool_def)

lemma partial_pool_pop:
  assumes "j < chunk_size"
  shows "free_list (partial_pool n j) \<noteq> []"
    and "(partial_pool n j)\<lparr>free_list := butlast (free_list (partial_pool n j))\<rparr> = partial_pool n (Suc j)"
proof -
  from assms have "[j..<chunk_size] = j # [Suc j..<chunk_size]"
    by (simp add: upt_conv_Cons)
  then show "free_list (partial_pool n j) \<noteq> []"
    and "(partial_pool n j)\<lparr>free_list := butlast (free_list (partial_pool n j))\<rparr> = partial_pool n (Suc j)"
    by (simp_all add: partial_pool_def)
qed

lemma create_partial_pool:
  assumes "pool_inv (partial_pool n j)" "j < chunk_size"
  shows "\<exists>h. create_object (partial_pool n j) = Inr (h, partial_pool n (Suc j))"
proof -
  note p = partial_pool_pop [OF assms(2), of n]
  from p(1) have "partial_pool n j =
      (if free_list (partial_pool n j) = [] then grow (partial_pool n j) else partial_pool n j)"
    by simp
  from create_object_via [OF this assms(1) p(1)] show ?thesis
    by (simp add: p(2))
qed

lemma reachable_partial_pool:
  assumes "reachable (full_pool n)" "n < 2 ^ 23" "j < chunk_size"
  shows "reachable (partial_pool n (Suc j))"
  using assms(3)
proof (induction j)
  case 0
  have inv: "pool_inv (partial_pool n 0)"
    unfolding grow_full_pool [symmetric] using assms(2)
    by (intro pool_inv_grow reachable_inv [OF assms(1)]) (simp add: chunk_size_def)
  have "partial_pool n 0 =
      (if free_list (full_pool n) = [] then grow (full_pool n) else full_pool n)"
    by (simp add: grow_full_pool)
  from create_object_via [OF this inv partial_pool_pop(1)]
  have "\<exists>h. create_object (full_pool n) = Inr (h, partial_pool n (Suc 0))"
    by (simp add: partial_pool_pop(2))
  then obtain h where "step Create (full_pool n) = Inr (Created h, partial_pool n (Suc 0))"
    by (auto simp: step_def)
  with assms(1) show ?case by (rule reachable_step)
next
  case (Suc j)
  then have r: "reachable (partial_pool n (Suc j))" by simp
  from create_partial_pool [OF reachable_inv [OF r] Suc.prems]
  obtain h where "step Create (partial_pool n (Suc j)) = Inr (Created h, partial_pool n (Suc (Suc j)))"
    by (auto simp: step_def)
  with r show ?case by (rule reachable_step)
qed

lemma reachable_full_pool: "n \<le> 2 ^ 23 \<Longrightarrow> reachable (full_pool n)"
proof (induction n)
  case 0
  then show ?case by (simp add: full_pool_0 reachable_empty)
next
  case (Suc n)
  then have "reachable (full_pool n)" "n < 2 ^ 23" by simp_all
  from reachable_partial_pool [OF this, of "chunk_size - 1"]
  show ?case by (simp add: partial_pool_done)
qed

lemma create_full_pool: "create_object (full_pool 8388608) = Inl OutOfBoundsRead"
  by (rule create_object_full) (simp_all add: full_pool_def chunk_size_def num_slots_def)

lemma create_empty_free_list:
  assumes "pool_inv s" "free_list s = []" "length (object_table s) < 2 ^ 23"
  shows "create_object s =
    Inr (of_nat (num_slots s),
      \<lparr>object_table = object_table s @ [fresh_chunk (num_slots s)],
       free_list = map (\<lambda>i. of_nat (num_slots s + i)) (rev [1..<chunk_size])\<rparr>)"
proof -
  from assms(3) have room: "num_slots s + chunk_size \<le> 2 ^ 31"
    by (simp add: num_slots_def chunk_size_def)
  have s1: "grow s = (if free_list s = [] then grow s else s)"
    using assms(2) by simp
  have l: "last (free_list (grow s)) = of_nat (num_slots s)"
    and b: "butlast (free_list (grow s)) = map (\<lambda>i. of_nat (num_slots s + i)) (rev [1..<chunk_size])"
    and ne: "free_list (grow s) \<noteq> []"
    using assms(2) by (simp_all add: free_list_grow fresh_indices_snoc)
  from room have "unat (of_nat (num_slots s) :: 32 word) = num_slots s"
    by (intro unat_of_nat_int) simp
  moreover have "slot_at (grow s) (num_slots s) = \<lparr>id' = of_nat (num_slots s)\<rparr>"
    by (rule slot_at_grow_new) simp_all
  moreover have "(grow s)\<lparr>free_list := fl\<rparr> =
      \<lparr>object_table = object_table s @ [fresh_chunk (num_slots s)], free_list = fl\<rparr>" for fl
    by (simp add: object_table_grow [symmetric])
  ultimately show ?thesis
    using create_object_via [OF s1 pool_inv_grow [OF assms(1) room] ne]
    by (simp only: l b) simp
qed

lemma fresh_chunk_encode:
  assumes "base + chunk_size \<le> 2 ^ 31"
  shows "fresh_chunk base = map (\<lambda>i. \<lparr>id' = encode (of_nat (base + i)) 0\<rparr>) [0..<chunk_size]"
proof -
  have "encode (of_nat (base + i)) 0 = of_nat (base + i)" if "i < chunk_size" for i
    using that assms by (intro encode_of_nat) simp
  then show ?thesis by (simp add: fresh_chunk_def del: of_nat_add)
qed

subsection \<open>Slots allocated during a run\<close>

lemma destroy_needs_slot:
  assumes "pool_inv s" "step a s = Inr (r, s')" "num_slots s \<le> k"
  shows "destroys_of k [a] = 0"
proof (cases a)
  case (Destroy h)
  with assms(2) obtain "destroy_object h s = Inr s'"
    by (auto simp: step_def split: sum.splits)
  from destroy_object_Inr(1) [OF assms(1) this] assms(3) Destroy show ?thesis by simp
qed simp_all

lemma run_new_slots:
  assumes "pool_inv s" "run as s = Inr s'" "num_slots s \<le> k" "k < num_slots s'"
  shows "id' (slot_at s' k) = of_nat k + of_nat (destroys_of k as) * 0x100000000"
  using assms
proof (induction as arbitrary: s)
  case Nil
  then show ?case by simp
next
  case (Cons a as)
  from Cons.prems(2) obtain r s1 where st: "step a s = Inr (r, s1)" and rn: "run as s1 = Inr s'"
    by (auto split: sum.splits)
  note inv1 = pool_inv_step [OF Cons.prems(1) st]
  note z = destroy_needs_slot [OF Cons.prems(1) st Cons.prems(3)]
  show ?case
  proof (cases "k < num_slots s1")
    case True
    from step_slots(3) [OF Cons.prems(1) st Cons.prems(3) True]
    have "id' (slot_at s1 k) = of_nat k" by simp
    with run_slots(3) [OF inv1 rn True] z show ?thesis
      by (simp add: destroys_of_Cons [of k a as])
  next
    case False
    with Cons.IH [OF inv1 rn _ Cons.prems(4)] z show ?thesis
      by (simp add: destroys_of_Cons [of k a as])
  qed
qed

lemma unat_generation_add:
  assumes "unat (g :: 32 word) + n < 2 ^ 32"
  shows "unat (g + of_nat n) = unat g + n"
proof -
  from assms have "unat (of_nat n :: 32 word) = n"
    by (intro unat_of_nat_int) simp
  with assms show ?thesis
    by (simp add: unat_word_ariths)
qed

subsection \<open>The layout on 64-bit handles\<close>

lemma within_32_bits: "(x :: 64 word) \<le> 0xFFFFFFFF \<longleftrightarrow> take_bit 32 x = x"
proof -
  have "take_bit 32 x = x \<longleftrightarrow> take_bit 32 (unat x) = unat x"
    by (simp add: word_unat_eq_iff unsigned_take_bit_eq)
  also have "\<dots> \<longleftrightarrow> unat x < 2 ^ 32"
    by (rule take_bit_nat_eq_self_iff)
  also have "\<dots> \<longleftrightarrow> x \<le> 0xFFFFFFFF"
    by (auto simp: word_le_nat_alt)
  finally show ?thesis by simp
qed

lemma within_32_bits_bit: "(x :: 64 word) \<le> 0xFFFFFFFF \<Longrightarrow> bit x n \<Longrightarrow> n < 32"
proof -
  assume "x \<le> 0xFFFFFFFF" "bit x n"
  then have "bit (take_bit 32 x) n" by (simp add: within_32_bits)
  then show "n < 32" by (simp add: bit_simps)
qed

lemma sign_bit_iff:
  assumes "(g :: 64 word) \<le> 0xFFFFFFFF"
  shows "bit g 31 \<longleftrightarrow> \<not> g < 0x80000000"
proof -
  from assms have u: "unat g < 2 ^ 32" by (simp add: word_le_nat_alt)
  have "bit g 31 \<longleftrightarrow> bit (unat g) 31"
    by (simp add: bit_unsigned_iff)
  also have "\<dots> \<longleftrightarrow> odd (unat g div 2 ^ 31)"
    by (simp add: bit_iff_odd)
  also have "\<dots> \<longleftrightarrow> 2 ^ 31 \<le> unat g"
    using u by (auto simp: odd_iff_mod_2_eq_one) 
  also have "\<dots> \<longleftrightarrow> \<not> g < 0x80000000"
    by (auto simp: word_less_nat_alt)
  finally show ?thesis .
qed

lemma index_bits_pack_low:
  assumes "i \<le> 0xFFFFFFFF"
  shows "index_bits (pack i g) = i"
  unfolding pack_def index_bits_def low_mask
  by (rule bit_word_eqI) (auto simp: bit_simps dest: within_32_bits_bit [OF assms])

lemma generation_bits_pack:
  assumes "i \<le> 0xFFFFFFFF"
  shows "generation_bits (pack i g) = signed_take_bit 31 g"
  unfolding pack_def generation_bits_def
  by (rule bit_word_eqI) (auto simp: bit_simps dest: within_32_bits_bit [OF assms])

lemma sign_extend:
  assumes "(g :: 64 word) \<le> 0xFFFFFFFF"
  shows "signed_take_bit 31 g = (if g < 0x80000000 then g else g - 0x100000000)"
proof -
  have "signed_take_bit 31 g = take_bit (Suc 31) g - 2 ^ Suc 31 * of_bool (bit g 31)"
    by (rule signed_take_bit_eq_take_bit_minus)
  also have "take_bit (Suc 31) g = g"
    using assms by (simp add: within_32_bits)
  finally show ?thesis
    by (simp add: sign_bit_iff [OF assms])
qed

lemma low_of_sign_extend:
  assumes "(g :: 64 word) \<le> 0xFFFFFFFF"
  shows "signed_take_bit 31 g AND 0xFFFFFFFF = g"
  unfolding low_mask
proof (rule bit_word_eqI)
  fix n
  assume "n < LENGTH(64)"
  show "bit (signed_take_bit 31 g AND mask 32) n = bit g n"
  proof -
    consider "n < 31" | "n = 31" | "32 \<le> n" by linarith
    then show ?thesis
      using within_32_bits_bit [OF assms, of n]
      by cases (auto simp: bit_simps min_def)
  qed
qed

section \<open>The specification's statements\<close>

text \<open>
  C1 (the source does otherwise). A handle is stale when its slot is allocated and
  holds another generation than the handle. The specification asks that destroying a
  stale handle changes nothing and reports \<open>NotFound\<close>. In the source
  \<^verbatim>\<open>destroy_object\<close> uses the result of \<^verbatim>\<open>get_object\<close> unchecked: for every stale
  handle \<^verbatim>\<open>get_object\<close> returns \<^verbatim>\<open>nullptr\<close> and \<^verbatim>\<open>destroy_object\<close> dereferences it, so
  the call has no defined result at all.
\<close>

theorem destroy_stale_dereferences_null:
  assumes "reachable s" "unat (index_bits h) < num_slots s"
    "generation_at s (unat (index_bits h)) \<noteq> snd (decode h)"
  shows "get_object h s = Inr (None, s) \<and> destroy_object h s = Inl NullDereference"
proof -
  note inv = reachable_inv [OF assms(1)]
  from assms(3) have "id' (slot_at s (unat (index_bits h))) \<noteq> h"
    by (simp add: slot_matches_iff [OF inv assms(2)])
  with assms(2) have "get_object h s = Inr (None, s)"
    by (simp add: get_object_eq [OF inv])
  then show ?thesis by (simp add: destroy_object_def)
qed

text \<open>Destroying the first handle of the program a second time.\<close>

theorem destroy_stale_dereferences_null_witness:
  "get_object 0 stale_pool = Inr (None, stale_pool) \<and> destroy_object 0 stale_pool = Inl NullDereference"
  using destroy_stale_dereferences_null [OF reachable_stale_pool, of 0]
  by (simp add: stale_pool_facts)

text \<open>
  C2. Once \<^verbatim>\<open>destroy_object(h)\<close> has succeeded, \<^verbatim>\<open>get_object(h)\<close> returns \<^verbatim>\<open>nullptr\<close>
  after every further run of the pool, also when the slot of \<open>h\<close> has been handed out
  again, as long as the generation of the slot does not wrap: the run destroys that slot
  fewer than \<open>2 ^ 32 - 1\<close> times.
\<close>

theorem destroyed_handle_stays_stale:
  assumes "reachable s" "destroy_object h s = Inr s1" "run as s1 = Inr s2"
    "destroys_of (unat (index_bits h)) as < 2 ^ 32 - 1"
  shows "get_object h s2 = Inr (None, s2)"
  using stale_after_run [OF reachable_inv [OF assms(1)] assms(2-4)] .

text \<open>The first handle, after its slot has been handed out again.\<close>

theorem destroyed_handle_stays_stale_witness:
  "destroy_object 0 first_pool = Inr stale_pool \<and> run [Create] stale_pool = Inr reused_pool \<and>
   get_object 0 reused_pool = Inr (None, reused_pool)"
proof -
  have "(0 :: nat) < 2 ^ 32 - 1" by simp
  then have "destroys_of (unat (index_bits 0)) [Create] < 2 ^ 32 - 1" by simp
  from destroyed_handle_stays_stale [OF reachable_first_pool destroy_first_pool run_create_stale this]
  show ?thesis by (intro conjI destroy_first_pool run_create_stale)
qed

text \<open>
  C3, for runs in which the generation does not wrap. If \<^verbatim>\<open>destroy_object(h1)\<close> succeeds and, after any run that destroys the
  slot of \<open>h1\<close> fewer than \<open>2 ^ 32 - 1\<close> times, \<^verbatim>\<open>create_object()\<close> returns a handle
  \<open>h2\<close> of the same slot, then \<open>h1 \<noteq> h2\<close>, \<^verbatim>\<open>get_object(h1)\<close> is \<^verbatim>\<open>nullptr\<close> and
  \<^verbatim>\<open>get_object(h2)\<close> is the slot.
\<close>

theorem reuse_distinguishable:
  assumes "reachable s" "destroy_object h1 s = Inr s1" "run as s1 = Inr s2"
    "create_object s2 = Inr (h2, s3)" "index_bits h2 = index_bits h1"
    "destroys_of (unat (index_bits h1)) as < 2 ^ 32 - 1"
  shows "h1 \<noteq> h2 \<and> get_object h1 s3 = Inr (None, s3) \<and>
    get_object h2 s3 = Inr (Some (unat (index_bits h2) div chunk_size, unat (index_bits h2) mod chunk_size), s3)"
proof -
  note inv = reachable_inv [OF assms(1)]
  note inv2 = run_slots(1) [OF pool_inv_destroy [OF inv assms(2)] assms(3)]
  have "run (as @ [Create]) s1 = Inr s3"
    by (simp add: run_append assms(3,4) step_def)
  moreover have "destroys_of k (as @ [Create]) = destroys_of k as" for k
    by (induction k as rule: destroys_of.induct) simp_all
  ultimately have stale: "get_object h1 s3 = Inr (None, s3)"
    using assms(6) stale_after_run [OF inv assms(2), of "as @ [Create]" s3] by simp
  note c = create_slots(4,5) [OF inv2 assms(4)]
  have live: "get_object h2 s3 = Inr (Some (unat (index_bits h2) div chunk_size, unat (index_bits h2) mod chunk_size), s3)"
    using c by (simp add: get_object_eq [OF pool_inv_create [OF inv2 assms(4)]])
  from stale live have "h1 \<noteq> h2" by auto
  with stale live show ?thesis by simp
qed

text \<open>The first slot, destroyed once and handed out again.\<close>

theorem reuse_distinguishable_witness:
  "(0 :: object_id) \<noteq> 0x100000000 \<and> get_object 0 reused_pool = Inr (None, reused_pool) \<and>
   get_object 0x100000000 reused_pool = Inr (Some (0, 0), reused_pool)"
proof -
  have "run [] stale_pool = Inr stale_pool" by simp
  from reuse_distinguishable [OF reachable_first_pool destroy_first_pool this create_stale_pool]
  show ?thesis by simp
qed

text \<open>
  Without the bound the statement fails. The first handle is \<open>0\<close>; it is destroyed, and
  the slot is created and destroyed \<open>2 ^ 32 - 1\<close> more times. The next
  \<^verbatim>\<open>create_object()\<close> returns the handle \<open>0\<close> again, and \<^verbatim>\<open>get_object(0)\<close> is the slot.
\<close>

theorem reuse_after_wraparound:
  "reachable first_pool \<and> destroy_object 0 first_pool = Inr stale_pool \<and>
   run (churn 4294967295 0x100000000) stale_pool = Inr idle_pool \<and>
   create_object idle_pool = Inr (0, first_pool) \<and>
   get_object 0 first_pool = Inr (Some (0, 0), first_pool)"
  by (simp add: reachable_first_pool destroy_first_pool churn_stale create_idle_pool get_first)

text \<open>
  C4, with the unchecked read. In every reachable pool, \<^verbatim>\<open>get_object\<close> on a handle whose
  index is allocated (below the number of slots) returns the slot if the generation
  stored there equals the generation of the handle, and \<^verbatim>\<open>nullptr\<close> otherwise, without
  any fault. On a handle whose index was never allocated it reads the chunk table out of
  range: undefined behaviour of the source, and no reported error.
\<close>

theorem get_checks_generation:
  assumes "reachable s"
  shows "get_object h s =
    (let k = unat (fst (decode h)) in
     if k < num_slots s
     then Inr (if generation_at s k = snd (decode h) then Some (k div chunk_size, k mod chunk_size) else None, s)
     else Inl OutOfBoundsRead)"
  using slot_matches_iff [OF reachable_inv [OF assms], of h]
  by (simp add: get_object_eq [OF reachable_inv [OF assms]] unat_fst_decode Let_def)

text \<open>A live handle, a stale handle, and a handle of the empty pool.\<close>

theorem get_checks_generation_witness:
  "get_object 0 first_pool = Inr (Some (0, 0), first_pool) \<and> get_object 0 stale_pool = Inr (None, stale_pool) \<and>
   get_object 0 empty_pool = Inl OutOfBoundsRead"
  using get_checks_generation [OF reachable_first_pool, of 0]
    get_checks_generation [OF reachable_stale_pool, of 0]
    get_checks_generation [OF reachable_empty, of 0]
  by (simp add: first_pool_facts stale_pool_facts)

text \<open>
  The statement that \<^verbatim>\<open>get_object\<close> never runs into undefined behaviour fails on the
  empty pool: \<^verbatim>\<open>get_object(0)\<close> reads \<^verbatim>\<open>object_table[0]\<close> of an empty vector.
\<close>

theorem get_unallocated_index_faults: "get_object 0 empty_pool = Inl OutOfBoundsRead"
  by (simp add: get_object_def empty_pool_def)

text \<open>
  C5, below the capacity of the free list. In every reachable pool with an empty free
  list and fewer than \<open>2 ^ 23\<close> chunks, \<^verbatim>\<open>create_object\<close> succeeds. It appends one chunk
  of \<open>chunk_size\<close> slots, the slot at offset \<open>i\<close> holding its own index at generation 0,
  and leaves the chunks before it as they are. It pushes the new indices from the highest offset down to offset 0,
  pops the index of offset 0 and returns that index at generation 0, which is the id the
  slot holds before and after the call. Offset 1 is then on top of the free list.
\<close>

theorem create_grows_one_chunk:
  assumes "reachable s" "free_list s = []" "length (object_table s) < 2 ^ 23"
  shows "grow s =
      \<lparr>object_table = object_table s @
         [map (\<lambda>i. \<lparr>id' = encode (of_nat (num_slots s + i)) 0\<rparr>) [0..<chunk_size]],
       free_list = map (\<lambda>i. of_nat (num_slots s + i)) (rev [0..<chunk_size])\<rparr> \<and>
    create_object s =
      Inr (encode (of_nat (num_slots s)) 0,
        \<lparr>object_table = object_table s @
           [map (\<lambda>i. \<lparr>id' = encode (of_nat (num_slots s + i)) 0\<rparr>) [0..<chunk_size]],
         free_list = map (\<lambda>i. of_nat (num_slots s + i)) (rev [1..<chunk_size])\<rparr>)"
proof -
  from assms(3) have room: "num_slots s + chunk_size \<le> 2 ^ 31"
    by (simp add: num_slots_def chunk_size_def)
  then have "num_slots s < 2 ^ 32" by simp
  then have h: "encode (of_nat (num_slots s)) 0 = of_nat (num_slots s)"
    by (rule encode_of_nat)
  have "grow s = \<lparr>object_table = object_table s @ [fresh_chunk (num_slots s)],
      free_list = fresh_indices (num_slots s)\<rparr>"
    using assms(2) by (simp add: grow_eq num_slots_def mult.commute)
  then show ?thesis
    using create_empty_free_list [OF reachable_inv [OF assms(1)] assms(2,3)]
    by (simp only: h fresh_chunk_encode [OF room, symmetric]) (simp add: fresh_indices_def)
qed

text \<open>The first creation of the program.\<close>

theorem create_grows_one_chunk_witness:
  "create_object empty_pool =
      Inr (encode 0 0,
        \<lparr>object_table = [map (\<lambda>i. \<lparr>id' = encode (of_nat i) 0\<rparr>) [0..<chunk_size]],
         free_list = map of_nat (rev [1..<chunk_size])\<rparr>)"
proof -
  have "free_list empty_pool = []" "length (object_table empty_pool) < 2 ^ 23"
    by (simp_all add: empty_pool_def)
  from create_grows_one_chunk [OF reachable_empty this] show ?thesis
    by (simp add: num_slots_def empty_pool_def)
qed

text \<open>
  With \<open>2 ^ 23\<close> chunks the call does not succeed. The pool in which all \<open>2 ^ 31\<close> slots
  are handed out is reachable and has an empty free list; the new indices do not fit the
  \<^verbatim>\<open>int\<close> entries of the free list, and the index popped, \<open>- 2 ^ 31\<close>, is far out of
  range of the chunk table once it is converted to \<^verbatim>\<open>size_t\<close> (64 bits).
\<close>

theorem create_at_capacity_faults:
  "reachable (full_pool 8388608) \<and> free_list (full_pool 8388608) = [] \<and>
   create_object (full_pool 8388608) = Inl OutOfBoundsRead"
  by (simp add: reachable_full_pool create_full_pool)

text \<open>
  C6. Along every run of the pool, the generation of an allocated slot is its generation
  at the start plus the number of \<^verbatim>\<open>destroy_object\<close> calls on that slot, modulo
  \<open>2 ^ 32\<close>: creations and lookups leave it as it is, every destruction adds exactly 1.
  Unless that sum reaches \<open>2 ^ 32\<close> the generation, read as an unsigned number, only
  grows. A slot allocated during the run starts at generation 0.
\<close>

theorem generation_counts_destroys:
  assumes "reachable s" "run as s = Inr s'"
  shows "(k < num_slots s \<longrightarrow>
            generation_at s' k = generation_at s k + of_nat (destroys_of k as) \<and>
            (unat (generation_at s k) + destroys_of k as < 2 ^ 32 \<longrightarrow>
               unat (generation_at s' k) = unat (generation_at s k) + destroys_of k as)) \<and>
         (num_slots s \<le> k \<and> k < num_slots s' \<longrightarrow>
            generation_at s' k = of_nat (destroys_of k as))"
proof -
  note inv = reachable_inv [OF assms(1)]
  note r = run_slots [OF inv assms(2)]
  have old: "generation_at s' k = generation_at s k + of_nat (destroys_of k as)" if "k < num_slots s"
    using r(3) [OF that] by (simp add: generation_at_def decode_add)
  have new: "generation_at s' k = of_nat (destroys_of k as)" if "num_slots s \<le> k" "k < num_slots s'"
  proof -
    from r(1) that(2) have "k < 2 ^ 32" by (simp add: pool_inv_def)
    then show ?thesis
      using run_new_slots [OF inv assms(2) that]
      by (simp add: generation_at_def decode_add decode_of_nat)
  qed
  from old new show ?thesis by (auto simp: unat_generation_add)
qed

text \<open>Slot 0 after its first destruction, seen from the first pool and from the empty one.\<close>

theorem generation_counts_destroys_witness:
  "generation_at stale_pool 0 = generation_at first_pool 0 + of_nat (destroys_of 0 [Destroy 0]) \<and>
   unat (generation_at stale_pool 0) = unat (generation_at first_pool 0) + destroys_of 0 [Destroy 0] \<and>
   generation_at stale_pool 0 = of_nat (destroys_of 0 [Create, Destroy 0])"
proof -
  have a: "run [Destroy 0] first_pool = Inr stale_pool"
    by (simp add: step_def destroy_first_pool)
  have b: "run [Create, Destroy 0] empty_pool = Inr stale_pool"
    by (simp add: step_def destroy_first_pool create_empty_pool)
  have g: "generation_at first_pool 0 = 0"
    using decode_of_nat [of 0] by (simp add: generation_at_def first_pool_facts)
  have e: "num_slots empty_pool = 0"
    by (simp add: num_slots_def empty_pool_def)
  from generation_counts_destroys [OF reachable_first_pool a, of 0]
    generation_counts_destroys [OF reachable_empty b, of 0]
  show ?thesis
    by (simp add: first_pool_facts stale_pool_facts g e index_bits_def)
qed

text \<open>
  C7, with the sign of the shift. Take an index and a generation below \<open>2 ^ 32\<close> and pack
  them as the source does, \<^verbatim>\<open>index | (generation << 32)\<close>. Then \<^verbatim>\<open>id & 0xFFFFFFFF\<close> is
  the index. The shift \<^verbatim>\<open>id >> 32\<close> of the signed handle is the generation when the
  generation is below \<open>2 ^ 31\<close>, and the generation minus \<open>2 ^ 32\<close> otherwise; in both
  cases its low 32 bits are the generation. The three expressions are total.
\<close>

theorem handle_round_trip:
  assumes "i \<le> 0xFFFFFFFF" "g \<le> 0xFFFFFFFF"
  shows "index_bits (pack i g) = i \<and>
    generation_bits (pack i g) = (if g < 0x80000000 then g else g - 0x100000000) \<and>
    generation_bits (pack i g) AND 0xFFFFFFFF = g"
proof -
  note g = generation_bits_pack [OF assms(1), of g]
  have "generation_bits (pack i g) AND 0xFFFFFFFF = g"
    unfolding g by (rule low_of_sign_extend [OF assms(2)])
  moreover have "generation_bits (pack i g) = (if g < 0x80000000 then g else g - 0x100000000)"
    unfolding g by (rule sign_extend [OF assms(2)])
  ultimately show ?thesis
    using index_bits_pack_low [OF assms(1), of g] by blast
qed

text \<open>Index 7 at generation 3.\<close>

theorem handle_round_trip_witness:
  "index_bits (pack 7 3) = 7 \<and> generation_bits (pack 7 3) = 3 \<and>
   generation_bits (pack 7 3) AND 0xFFFFFFFF = 3"
  using handle_round_trip [of 7 3] by simp

text \<open>
  The generation does not come back as it went in once its bit 31 is set: for index 0 at
  generation \<open>2 ^ 31\<close> the handle is \<open>2 ^ 63\<close>, the least \<^verbatim>\<open>long long\<close>, and \<^verbatim>\<open>id >> 32\<close>
  is \<open>- 2 ^ 31\<close>.
\<close>

theorem generation_shift_sign_extends:
  "(0x80000000 :: object_id) \<le> 0xFFFFFFFF \<and>
   pack 0 0x80000000 = 0x8000000000000000 \<and>
   generation_bits (pack 0 0x80000000) = - 0x80000000 \<and>
   generation_bits (pack 0 0x80000000) \<noteq> 0x80000000"
  by (simp add: pack_def generation_bits_def)

text \<open>
  C8. There is a run after which a stale handle is valid again. The first handle of the
  program is \<open>0\<close>. After \<^verbatim>\<open>destroy_object(0)\<close> the lookup of \<open>0\<close> is \<^verbatim>\<open>nullptr\<close>. Creating
  and destroying the slot \<open>2 ^ 32 - 1\<close> more times and creating it once again brings the
  generation back to 0, and \<^verbatim>\<open>get_object(0)\<close> returns the slot, which belongs to a later
  object.
\<close>

theorem generation_wraparound:
  "create_object empty_pool = Inr (0, first_pool) \<and>
   destroy_object 0 first_pool = Inr stale_pool \<and>
   get_object 0 stale_pool = Inr (None, stale_pool) \<and>
   run (churn 4294967295 0x100000000 @ [Create]) stale_pool = Inr first_pool \<and>
   get_object 0 first_pool = Inr (Some (0, 0), first_pool)"
  by (simp add: create_empty_pool destroy_first_pool get_stale run_append churn_stale step_def
      create_idle_pool get_first)

text \<open>The run that wraps the generation, on its own.\<close>

theorem generation_wraparound_witness:
  "run (churn 4294967295 0x100000000 @ [Create]) stale_pool = Inr first_pool"
  using generation_wraparound by simp

text \<open>
  C9. A handle returned by \<^verbatim>\<open>create_object\<close> has an index below \<open>chunk_size\<close> times the
  number of chunks, and a run never removes a chunk. So after every further run
  \<^verbatim>\<open>get_object\<close> on that handle returns without fault, and \<^verbatim>\<open>destroy_object\<close> on it
  does not read out of range.
\<close>

theorem created_handle_in_bounds:
  assumes "reachable s" "create_object s = Inr (h, s1)" "run as s1 = Inr s2"
  shows "unat (index_bits h) < chunk_size * length (object_table s1) \<and>
    length (object_table s1) \<le> length (object_table s2) \<and>
    (\<exists>p. get_object h s2 = Inr (p, s2)) \<and>
    destroy_object h s2 \<noteq> Inl OutOfBoundsRead"
proof -
  note inv = reachable_inv [OF assms(1)]
  note inv1 = pool_inv_create [OF inv assms(2)]
  note c = create_slots(4) [OF inv assms(2)]
  note r = run_slots(1,2) [OF inv1 assms(3)]
  from c r(2) have k: "unat (index_bits h) < num_slots s2" by simp
  then have "\<exists>p. get_object h s2 = Inr (p, s2)"
    by (simp add: get_object_eq [OF r(1)])
  moreover from k have "destroy_object h s2 \<noteq> Inl OutOfBoundsRead"
    by (simp add: destroy_object_eq [OF r(1)] Let_def)
  moreover from r(2) have "length (object_table s1) \<le> length (object_table s2)"
    by (simp add: num_slots_def)
  ultimately show ?thesis using c by (simp add: num_slots_def)
qed

text \<open>The first handle, before and after its destruction.\<close>

theorem created_handle_in_bounds_witness:
  "unat (index_bits 0) < chunk_size * length (object_table first_pool) \<and>
    length (object_table first_pool) \<le> length (object_table stale_pool) \<and>
    (\<exists>p. get_object 0 stale_pool = Inr (p, stale_pool)) \<and>
    destroy_object 0 stale_pool \<noteq> Inl OutOfBoundsRead"
  using created_handle_in_bounds [OF reachable_empty create_empty_pool run_destroy_first] .

text \<open>
  C10, for allocated indices. In every reachable pool, \<^verbatim>\<open>get_object\<close> on a handle whose
  index is allocated returns without fault and leaves the pool exactly as it was: the
  chunk table, the free list and every slot. A second call with the same handle, made
  on the pool the first call leaves, returns the same result.
\<close>

theorem get_read_only:
  assumes "reachable s" "unat (index_bits h) < num_slots s"
  shows "\<exists>p s1. get_object h s = Inr (p, s1) \<and> s1 = s \<and>
    object_table s1 = object_table s \<and> free_list s1 = free_list s \<and>
    (\<forall>k. slot_at s1 k = slot_at s k) \<and> get_object h s1 = Inr (p, s1)"
proof -
  from assms(2) have "\<exists>p. get_object h s = Inr (p, s)"
    by (simp add: get_object_eq [OF reachable_inv [OF assms(1)]])
  then show ?thesis by auto
qed

text \<open>Looking up the first handle.\<close>

theorem get_read_only_witness:
  "\<exists>p s1. get_object 0 first_pool = Inr (p, s1) \<and> s1 = first_pool \<and>
    object_table s1 = object_table first_pool \<and> free_list s1 = free_list first_pool \<and>
    (\<forall>k. slot_at s1 k = slot_at first_pool k) \<and> get_object 0 s1 = Inr (p, s1)"
proof -
  have "unat (index_bits 0) < num_slots first_pool"
    by (simp add: first_pool_facts)
  from get_read_only [OF reachable_first_pool this] show ?thesis .
qed

text \<open>
  For a handle whose index was never allocated the call has no result and leaves no pool
  behind. The first pool has the \<open>256\<close> slots of one chunk; \<^verbatim>\<open>get_object(256)\<close> reads
  \<^verbatim>\<open>object_table[1]\<close> of a vector of size 1.
\<close>

theorem get_past_last_chunk_faults:
  "reachable first_pool \<and> num_slots first_pool = 256 \<and> unat (index_bits 256) = 256 \<and>
   get_object 256 first_pool = Inl OutOfBoundsRead"
proof -
  have "unat (index_bits 256) = 256"
    by (simp add: index_bits_def)
  then show ?thesis
    by (simp add: reachable_first_pool first_pool_facts chunk_size_def
        get_object_eq [OF reachable_inv [OF reachable_first_pool]])
qed

end
